theory Spec2Isabelle
  imports Main "HOL-Library.Sublist"
begin

section \<open>JavaScript strings and the string methods the parser calls\<close>

text \<open>
  A JavaScript string is a sequence of UTF-16 code units. A code unit is modelled by its
  number; the model accepts every list of naturals, which covers every string the parser
  can receive. \<open>js\<close> turns an ASCII literal into its code units.
\<close>

type_synonym jsstring = "nat list"

definition js :: "string \<Rightarrow> jsstring" where
  "js s = map of_char s"

text \<open>
  The characters matched by \<open>\s\<close> in a regular expression and stripped by
  \<open>String.prototype.trim\<close>: WhiteSpace and LineTerminator of ECMAScript (TAB, LF, VT, FF,
  CR, SP, NBSP, U+1680, U+2000 to U+200A, U+2028, U+2029, U+202F, U+205F, U+3000, U+FEFF).
\<close>

definition isWhiteSpace :: "nat \<Rightarrow> bool" where
  "isWhiteSpace c \<longleftrightarrow>
     c \<in> {9, 10, 11, 12, 13, 32, 160, 5760, 8232, 8233, 8239, 8287, 12288, 65279}
     \<or> (8192 \<le> c \<and> c \<le> 8202)"

text \<open>
  \<open>s.indexOf(searchString, position)\<close>: the least index \<open>k\<close>, not below the clamped
  position, at which \<open>searchString\<close> occurs in \<open>s\<close>, and \<open>-1\<close> when there is none.
  \<open>scanFor\<close> walks the text from index \<open>k\<close> on.
\<close>

primrec scanFor :: "jsstring \<Rightarrow> jsstring \<Rightarrow> nat \<Rightarrow> int" where
  "scanFor needle [] k = (if needle = [] then int k else - 1)"
| "scanFor needle (c # cs) k =
     (if prefix needle (c # cs) then int k else scanFor needle cs (Suc k))"

definition indexOf :: "jsstring \<Rightarrow> jsstring \<Rightarrow> int \<Rightarrow> int" where
  "indexOf s searchString position =
     (let start = nat (min (max position 0) (int (length s)))
      in scanFor searchString (drop start s) start)"

text \<open>
  \<open>s.slice(start, end)\<close>: a negative argument counts from the end of the string, both
  are clamped to the string, and the result is empty when the end is not after the start.
  \<open>sliceFrom\<close> is \<open>s.slice(start)\<close>, whose end is the length of the string.
\<close>

definition slice :: "jsstring \<Rightarrow> int \<Rightarrow> int \<Rightarrow> jsstring" where
  "slice s start fin =
     (let len = int (length s);
          from = (if start < 0 then max (len + start) 0 else min start len);
          to = (if fin < 0 then max (len + fin) 0 else min fin len)
      in take (nat (to - from)) (drop (nat from) s))"

definition sliceFrom :: "jsstring \<Rightarrow> int \<Rightarrow> jsstring" where
  "sliceFrom s start = slice s start (int (length s))"

text \<open>\<open>s.trim()\<close> removes the white space at both ends.\<close>

definition trim :: "jsstring \<Rightarrow> jsstring" where
  "trim s = rev (dropWhile isWhiteSpace (rev (dropWhile isWhiteSpace s)))"

section \<open>The two attribute patterns\<close>

text \<open>
  \<open>header.match(/id=([^\s]+)(\s|$)/)?.[1]\<close>. The pattern is tried at each position from
  the left. At a position where \<open>id=\<close> stands, the greedy group takes the longest run of
  characters that are not white space; what follows that run is white space or the end of
  the header, so the last group matches without backtracking, provided the run is not
  empty. The result is the first group, and \<open>None\<close> stands for \<open>undefined\<close>.
\<close>

fun matchId :: "jsstring \<Rightarrow> jsstring option" where
  "matchId [] = None"
| "matchId (c # cs) =
     (let tok = takeWhile (\<lambda>x. \<not> isWhiteSpace x) (drop 3 (c # cs))
      in if prefix (js ''id='') (c # cs) \<and> tok \<noteq> [] then Some tok else matchId cs)"

text \<open>
  \<open>header.match(/theorem="([^"]*)"/)?.[1]\<close>. After \<open>theorem="\<close> the greedy group takes
  the longest run of characters other than the double quote (code unit 34); the pattern
  matches there when a double quote follows the run, and a shorter run never helps, since
  it is followed by a character of the run.
\<close>

fun matchTheorem :: "jsstring \<Rightarrow> jsstring option" where
  "matchTheorem [] = None"
| "matchTheorem (c # cs) =
     (let rest = drop 9 (c # cs);
          val = takeWhile (\<lambda>x. x \<noteq> 34) rest
      in if prefix (js ''theorem='' @ [34]) (c # cs) \<and> drop (length val) rest \<noteq> []
         then Some val else matchTheorem cs)"

section \<open>Segments and the parser\<close>

datatype segtype = Normal | Key

record KeyStepSegment =
  seg_type :: segtype
  seg_text :: jsstring
  seg_id :: "jsstring option"
  seg_theorem :: "jsstring option"

definition normalSeg :: "jsstring \<Rightarrow> KeyStepSegment" where
  "normalSeg t = \<lparr>seg_type = Normal, seg_text = t, seg_id = None, seg_theorem = None\<rparr>"

definition keySeg :: "jsstring \<Rightarrow> jsstring option \<Rightarrow> jsstring option \<Rightarrow> KeyStepSegment" where
  "keySeg t i thm = \<lparr>seg_type = Key, seg_text = t, seg_id = i, seg_theorem = thm\<rparr>"

definition startTag :: jsstring where
  "startTag = js ''[[KEY_STEP''"

definition endTag :: jsstring where
  "endTag = js ''[[/KEY_STEP]]''"

text \<open>
  The body of \<open>while (true)\<close>, with the text still to scan and the segments pushed so far.
  The loop may a priori run forever, so the result is an option and \<open>None\<close> is a scan
  that never ends.
\<close>

partial_function (option) parseLoop ::
  "jsstring \<Rightarrow> KeyStepSegment list \<Rightarrow> KeyStepSegment list option" where
  "parseLoop remaining segments =
     (let startIdx = indexOf remaining startTag 0 in
      if startIdx = - 1 then
        Some (if remaining \<noteq> [] then segments @ [normalSeg remaining] else segments)
      else
        let segments1 =
              (if startIdx > 0 then segments @ [normalSeg (slice remaining 0 startIdx)]
               else segments);
            endIdx = indexOf remaining endTag startIdx in
        if endIdx = - 1 then
          Some (segments1 @ [normalSeg (sliceFrom remaining startIdx)])
        else
          let tagAndContent = slice remaining startIdx (endIdx + int (length endTag));
              headerEnd = indexOf tagAndContent (js '']]'') 0;
              header = trim (slice tagAndContent (int (length startTag)) headerEnd);
              body = slice tagAndContent (headerEnd + 2) (- int (length endTag));
              idMatch = matchId header;
              theoremMatch = matchTheorem header
          in parseLoop (sliceFrom remaining (endIdx + int (length endTag)))
               (segments1 @ [keySeg body idMatch theoremMatch]))"

definition parseKeySteps :: "jsstring \<Rightarrow> KeyStepSegment list option" where
  "parseKeySteps text = parseLoop text []"

section \<open>Facts about the string methods\<close>

lemma scanFor_neg_iff: "scanFor n s k = - 1 \<longleftrightarrow> \<not> sublist n s"
proof (induction s arbitrary: k)
  case Nil
  show ?case by simp
next
  case (Cons c cs)
  show ?case using Cons.IH [of "Suc k"] by (simp add: sublist_Cons_right)
qed

lemma scanFor_ge: "scanFor n s k = - 1 \<or> int k \<le> scanFor n s k"
proof (induction s arbitrary: k)
  case Nil
  show ?case by simp
next
  case (Cons c cs)
  show ?case using Cons.IH [of "Suc k"] by auto
qed

lemma scanFor_shift:
  "scanFor n s k = (if scanFor n s 0 = - 1 then - 1 else scanFor n s 0 + int k)"
proof (induction s arbitrary: k)
  case Nil
  show ?case by simp
next
  case (Cons c cs)
  show ?case
    using Cons.IH [of "Suc k"] Cons.IH [of "Suc 0"] scanFor_ge [of n cs 0]
    by (auto split: if_splits)
qed

lemma scanFor_found:
  "scanFor n s 0 = int j \<Longrightarrow>
     j + length n \<le> length s \<and> prefix n (drop j s) \<and> (\<forall>i<j. \<not> prefix n (drop i s))"
proof (induction s arbitrary: j)
  case Nil
  then show ?case by (simp split: if_splits)
next
  case (Cons c cs)
  show ?case
  proof (cases "prefix n (c # cs)")
    case True
    with Cons.prems have "j = 0" by simp
    with True show ?thesis using prefix_length_le [OF True] by simp
  next
    case False
    with Cons.prems have sc: "scanFor n cs (Suc 0) = int j" by simp
    then have ne: "scanFor n cs 0 \<noteq> - 1" and eq: "scanFor n cs 0 + 1 = int j"
      using scanFor_shift [of n cs "Suc 0"] by (auto split: if_splits)
    have "scanFor n cs 0 \<ge> 0" using ne scanFor_ge [of n cs 0] by simp
    then obtain j' where j': "scanFor n cs 0 = int j'" using nonneg_int_cases by blast 
    with eq have j: "j = Suc j'" by simp
    from Cons.IH [OF j'] False show ?thesis unfolding j by (auto simp: less_Suc_eq_0_disj)
  qed
qed

lemma scanFor_first:
  "prefix n (drop j s) \<Longrightarrow> j \<le> length s \<Longrightarrow> (\<forall>i<j. \<not> prefix n (drop i s)) \<Longrightarrow> scanFor n s 0 = int j"
proof -
  assume p: "prefix n (drop j s)" and le: "j \<le> length s" and first: "\<forall>i<j. \<not> prefix n (drop i s)"
  have "sublist n s" using p by (meson sublist_drop prefix_imp_sublist sublist_order.order_trans)
  then have "scanFor n s 0 \<noteq> - 1" by (simp add: scanFor_neg_iff)
  then have "0 \<le> scanFor n s 0" using scanFor_ge [of n s 0] by simp
  then obtain j' where j': "scanFor n s 0 = int j'" using nonneg_int_cases by blast 
  from scanFor_found [OF j'] have a: "prefix n (drop j' s)" and b: "\<forall>i<j'. \<not> prefix n (drop i s)" by auto
  have "j' = j" using a b p first by (meson linorder_neqE_nat)
  with j' show ?thesis by simp
qed

text \<open>\<open>indexOf\<close> with a position inside the string.\<close>

lemma indexOf_scan: "p \<le> length s \<Longrightarrow> indexOf s n (int p) = scanFor n (drop p s) p"
  by (simp add: indexOf_def)

lemma indexOf_neg_iff: "p \<le> length s \<Longrightarrow> indexOf s n (int p) = - 1 \<longleftrightarrow> \<not> sublist n (drop p s)"
  by (simp add: indexOf_scan scanFor_neg_iff)

lemma indexOf_found:
  assumes "p \<le> length s" "indexOf s n (int p) \<noteq> - 1"
  shows "\<exists>k. indexOf s n (int p) = int k \<and> p \<le> k \<and> k + length n \<le> length s
    \<and> prefix n (drop k s) \<and> (\<forall>i. p \<le> i \<and> i < k \<longrightarrow> \<not> prefix n (drop i s))"
proof -
  let ?d = "drop p s"
  from assms have ne: "scanFor n ?d 0 \<noteq> - 1"
    using scanFor_shift [of n ?d p] by (auto simp: indexOf_scan split: if_splits)
  then have "0 \<le> scanFor n ?d 0" using scanFor_ge [of n ?d 0] by simp
  then obtain j where j: "scanFor n ?d 0 = int j" using nonneg_int_cases by blast
  from scanFor_found [OF j] have f: "j + length n \<le> length ?d" "prefix n (drop j ?d)"
     "\<forall>i<j. \<not> prefix n (drop i ?d)" by auto
  have 1: "indexOf s n (int p) = int (p + j)"
    using assms(1) j scanFor_shift [of n ?d p] by (simp add: indexOf_scan)
  have 2: "p + j + length n \<le> length s" using f(1) assms(1) by simp
  have 3: "prefix n (drop (p + j) s)" using f(2) by (simp add: add.commute)
  have 4: "\<forall>i. p \<le> i \<and> i < p + j \<longrightarrow> \<not> prefix n (drop i s)"
  proof (intro allI impI)
    fix i assume "p \<le> i \<and> i < p + j"
    then have "i - p < j" "i = (i - p) + p" by auto
    with f(3) show "\<not> prefix n (drop i s)" by (metis drop_drop)
  qed
  from 1 2 3 4 show ?thesis by (intro exI [of _ "p + j"]) simp
qed

lemma startTag_eq: "startTag = [91, 91, 75, 69, 89, 95, 83, 84, 69, 80]"
  by (simp add: startTag_def js_def)

lemma endTag_eq: "endTag = [91, 91, 47, 75, 69, 89, 95, 83, 84, 69, 80, 93, 93]"
  by (simp add: endTag_def js_def)

lemma closer_eq: "js '']]'' = [93, 93]"
  by (simp add: js_def)

lemma length_startTag: "length startTag = 10"
  by (simp add: startTag_eq)

lemma length_endTag: "length endTag = 13"
  by (simp add: endTag_eq)

lemma sliceFrom_nat: "sliceFrom s (int a) = drop a s"
  by (simp add: sliceFrom_def slice_def Let_def min_def)

lemma slice_nat: "slice s (int a) (int b) = take (b - a) (drop a s)"
  by (auto simp add: slice_def Let_def min_def nat_diff_distrib')

lemma indexOf_0: "indexOf s n 0 = scanFor n s 0"
  by (simp add: indexOf_def)


lemma loop_indices:
  assumes "indexOf r startTag 0 \<noteq> - 1" "indexOf r endTag (indexOf r startTag 0) \<noteq> - 1"
  shows "\<exists>s e. indexOf r startTag 0 = int s \<and> indexOf r endTag (int s) = int e
    \<and> s + 10 \<le> length r \<and> s \<le> e \<and> e + 13 \<le> length r"
proof -
  have "indexOf r startTag (int 0) \<noteq> - 1" using assms(1) by simp
  from indexOf_found [OF _ this]
  obtain s where s: "indexOf r startTag 0 = int s" "s + length startTag \<le> length r"
    by auto
  then have sl: "s \<le> length r" by simp
  have "indexOf r endTag (int s) \<noteq> - 1" using assms(2) s(1) by simp
  from indexOf_found [OF sl this]
  obtain e where e: "indexOf r endTag (int s) = int e" "s \<le> e"
      "e + length endTag \<le> length r"
    by auto
  from s e show ?thesis by (simp add: length_startTag length_endTag)
qed

section \<open>The loop as a total function\<close>

text \<open>
  The segments one run of the loop pushes, as a total function: the same body, with the
  recursive call in place of the next iteration. It is the closed form of \<open>parseLoop\<close>
  used in the proofs.
\<close>

function segmentsOf :: "jsstring \<Rightarrow> KeyStepSegment list" where
  "segmentsOf remaining =
     (let startIdx = indexOf remaining startTag 0 in
      if startIdx = - 1 then
        (if remaining \<noteq> [] then [normalSeg remaining] else [])
      else
        let pre = (if startIdx > 0 then [normalSeg (slice remaining 0 startIdx)] else []);
            endIdx = indexOf remaining endTag startIdx in
        if endIdx = - 1 then
          pre @ [normalSeg (sliceFrom remaining startIdx)]
        else
          let tagAndContent = slice remaining startIdx (endIdx + int (length endTag));
              headerEnd = indexOf tagAndContent (js '']]'') 0;
              header = trim (slice tagAndContent (int (length startTag)) headerEnd);
              body = slice tagAndContent (headerEnd + 2) (- int (length endTag));
              idMatch = matchId header;
              theoremMatch = matchTheorem header
          in pre @ keySeg body idMatch theoremMatch
               # segmentsOf (sliceFrom remaining (endIdx + int (length endTag))))"
  by pat_completeness auto
termination
proof (relation "measure length", goal_cases)
  case 1
  show ?case by simp
next
  case (2 remaining startIdx pre endIdx)
  from 2 have "indexOf remaining startTag 0 \<noteq> - 1"
      "indexOf remaining endTag (indexOf remaining startTag 0) \<noteq> - 1" by simp_all
  from loop_indices [OF this] 2(1,4)
  obtain e where "endIdx = int e" "e + 13 \<le> length remaining"
    by auto
  then show ?case
    using sliceFrom_nat [of remaining "e + 13"] by (simp add: length_endTag)
qed

declare segmentsOf.simps [simp del]

lemma parseLoop_eq: "parseLoop r acc = Some (acc @ segmentsOf r)"
proof (induction r arbitrary: acc rule: segmentsOf.induct)
  case (1 remaining)
  show ?case
    apply (subst parseLoop.simps)
    apply (subst segmentsOf.simps)
    apply (simp add: Let_def 1)
    done
qed

section \<open>One iteration of the loop\<close>

lemma slice_neg_end:
  "0 < m \<Longrightarrow> m \<le> length t \<Longrightarrow> slice t (int a) (- int m) = take (length t - m - a) (drop a t)"
  by (auto simp add: slice_def Let_def min_def max_def nat_diff_distrib' intro: arg_cong2 [where f = take])

lemma segmentsOf_plain:
  "indexOf r startTag 0 = - 1 \<Longrightarrow> segmentsOf r = (if r \<noteq> [] then [normalSeg r] else [])"
  by (subst segmentsOf.simps) simp

lemma segmentsOf_malformed:
  "indexOf r startTag 0 = int s \<Longrightarrow> indexOf r endTag (int s) = - 1 \<Longrightarrow>
     segmentsOf r = (if 0 < s then [normalSeg (take s r)] else []) @ [normalSeg (drop s r)]"
  using slice_nat [of r 0 s] by (subst segmentsOf.simps) (simp add: sliceFrom_nat Let_def)

lemma prefix_take_iff: "prefix n (take m xs) \<longleftrightarrow> prefix n xs \<and> length n \<le> m"
proof
  assume a: "prefix n (take m xs)"
  have "prefix n xs" using a take_is_prefix [of m xs] by (rule prefix_order.trans)
  moreover have "length n \<le> m" using prefix_length_le [OF a] by simp
  ultimately show "prefix n xs \<and> length n \<le> m" by simp
next
  assume "prefix n xs \<and> length n \<le> m"
  then show "prefix n (take m xs)" by (auto simp: prefix_def)
qed

lemma prefix_nth: "prefix n xs \<Longrightarrow> i < length n \<Longrightarrow> xs ! i = n ! i"
  by (auto simp: prefix_def nth_append)

lemma prefix_drop_more: "prefix n (drop k xs) \<Longrightarrow> prefix (drop j n) (drop (k + j) xs)"
proof -
  assume "prefix n (drop k xs)"
  then obtain z where z: "drop k xs = n @ z" by (auto simp: prefix_def)
  have "drop (k + j) xs = drop j (drop k xs)" by (simp add: add.commute)
  also have "\<dots> = drop j n @ drop (j - length n) z" unfolding z by simp
  finally show ?thesis by (simp add: prefix_def)
qed

lemma closer_not_in_startTag: "93 \<notin> set startTag"
  by (simp add: startTag_eq)

lemma headerEnd_eq:
  assumes s: "indexOf r startTag 0 = int s" and e: "indexOf r endTag (int s) = int e"
    and h: "indexOf r (js '']]'') (int s) = int h"
  shows "indexOf (take (e + 13 - s) (drop s r)) (js '']]'') 0 = int (h - s)"
    and "s + 10 \<le> h" and "h \<le> e + 11"
proof -
  let ?tc = "take (e + 13 - s) (drop s r)"
  have "indexOf r startTag (int 0) \<noteq> - 1" using s by simp
  from indexOf_found [OF _ this] s
  have ps: "prefix startTag (drop s r)" and sl: "s \<le> length r" by (auto simp: length_startTag)
  have "indexOf r endTag (int s) \<noteq> - 1" using e by simp
  from indexOf_found [OF sl this] e
  have pe: "prefix endTag (drop e r)" and se: "s \<le> e" and el: "e + 13 \<le> length r"
    by (auto simp: length_endTag)
  have "indexOf r (js '']]'') (int s) \<noteq> - 1" using h by simp
  from indexOf_found [OF sl this] h
  have ph: "prefix [93, 93] (drop h r)" and sh: "s \<le> h" and hl: "h + 2 \<le> length r"
    and least: "\<And>i. s \<le> i \<Longrightarrow> i < h \<Longrightarrow> \<not> prefix [93, 93] (drop i r)"
    by (auto simp: closer_eq)
  have "prefix (drop 11 endTag) (drop (e + 11) r)" using pe by (rule prefix_drop_more)
  then have pc: "prefix [93, 93] (drop (e + 11) r)" by (simp add: endTag_eq)
  show he: "h \<le> e + 11"
  proof (rule ccontr)
    assume "\<not> h \<le> e + 11"
    then have "s \<le> e + 11" "e + 11 < h" using se by simp_all
    from least [OF this] pc show False by simp
  qed
  show s10: "s + 10 \<le> h"
  proof (rule ccontr)
    assume "\<not> s + 10 \<le> h"
    then have lt: "h - s < length startTag" by (simp add: length_startTag)
    have "drop s r ! (h - s) = startTag ! (h - s)" using ps lt by (rule prefix_nth)
    moreover have "drop s r ! (h - s) = r ! h" using sh sl by simp
    moreover have "r ! h = 93" using prefix_nth [OF ph, of 0] hl by simp
    ultimately have "93 \<in> set startTag" using lt by (metis nth_mem)
    then show False by (simp add: closer_not_in_startTag)
  qed
  have d: "\<And>i. drop i ?tc = take (e + 13 - s - i) (drop (i + s) r)"
    by (simp add: drop_take)
  have "scanFor [93, 93] ?tc 0 = int (h - s)"
  proof (rule scanFor_first)
    show "prefix [93, 93] (drop (h - s) ?tc)"
      using ph sh he by (simp add: d prefix_take_iff)
    show "h - s \<le> length ?tc" using he el sh by simp
    show "\<forall>i<h - s. \<not> prefix [93, 93] (drop i ?tc)"
    proof (intro allI impI)
      fix i assume "i < h - s"
      then have "s \<le> i + s" "i + s < h" by simp_all
      from least [OF this] show "\<not> prefix [93, 93] (drop i ?tc)"
        by (simp add: d prefix_take_iff)
    qed
  qed
  then show "indexOf ?tc (js '']]'') 0 = int (h - s)" by (simp add: indexOf_0 closer_eq)
qed

text \<open>
  One iteration that pushes a key step, in terms of the positions \<open>s\<close> of the start
  marker, \<open>e\<close> of the first terminator from \<open>s\<close> on, and \<open>h\<close> of the first \<open>]]\<close>
  from \<open>s\<close> on.
\<close>

lemma segmentsOf_key:
  assumes s: "indexOf r startTag 0 = int s" and e: "indexOf r endTag (int s) = int e"
    and h: "indexOf r (js '']]'') (int s) = int h"
  shows "segmentsOf r = (if 0 < s then [normalSeg (take s r)] else []) @
     keySeg (take (e - (h + 2)) (drop (h + 2) r))
       (matchId (trim (take (h - (s + 10)) (drop (s + 10) r))))
       (matchTheorem (trim (take (h - (s + 10)) (drop (s + 10) r))))
     # segmentsOf (drop (e + 13) r)"
proof -
  let ?tc = "take (e + 13 - s) (drop s r)"
  from s e have ne: "indexOf r startTag 0 \<noteq> - 1" "indexOf r endTag (indexOf r startTag 0) \<noteq> - 1"
    by simp_all
  from loop_indices [OF ne] s e have b: "s + 10 \<le> length r" "s \<le> e" "e + 13 \<le> length r"
    by auto
  have tc: "slice r (int s) (int e + int (length endTag)) = ?tc"
    using slice_nat [of r s "e + 13"] by (simp add: length_endTag)
  have ltc: "length ?tc = e + 13 - s" using b by simp
  note he = headerEnd_eq [OF s e h]
  have sub: "\<And>a b c xs. take a (drop b (take c xs)) = take (min a (c - b)) (drop b xs)"
    by (simp add: drop_take)
  have hdr: "slice ?tc (int (length startTag)) (int (h - s)) = take (h - (s + 10)) (drop (s + 10) r)"
  proof -
    have "slice ?tc (int 10) (int (h - s)) = take (h - s - 10) (drop 10 ?tc)" by (rule slice_nat)
    also have "\<dots> = take (min (h - s - 10) (e + 13 - s - 10)) (drop 10 (drop s r))" by (rule sub)
    also have "min (h - s - 10) (e + 13 - s - 10) = h - (s + 10)" using he(3) by simp
    also have "drop 10 (drop s r) = drop (s + 10) r" by (simp add: add.commute)
    finally show ?thesis by (simp add: length_startTag)
  qed
  have body: "slice ?tc (int (h - s) + 2) (- int (length endTag)) = take (e - (h + 2)) (drop (h + 2) r)"
  proof -
    have "slice ?tc (int (h - s + 2)) (- int 13) = take (length ?tc - 13 - (h - s + 2)) (drop (h - s + 2) ?tc)"
      by (rule slice_neg_end) (use b in simp_all)
    also have "length ?tc - 13 - (h - s + 2) = e - (h + 2)" using he(2) b by (simp add: ltc)
    also have "take (e - (h + 2)) (drop (h - s + 2) ?tc) 
       = take (min (e - (h + 2)) (e + 13 - s - (h - s + 2))) (drop (h - s + 2) (drop s r))" by (rule sub)
    also have "min (e - (h + 2)) (e + 13 - s - (h - s + 2)) = e - (h + 2)" using he(2) by simp
    also have "drop (h - s + 2) (drop s r) = drop (h + 2) r" using he(2) by simp
    finally show ?thesis by (simp add: length_endTag add.commute)
  qed
  show ?thesis
    apply (subst segmentsOf.simps)
    apply (simp only: s e Let_def tc he(1) hdr body sliceFrom_nat)
    using slice_nat [of r 0 s] apply (simp add: sliceFrom_nat [of r "e + 13", simplified] length_endTag)
    done
qed

lemma indexOf_first_occurrence:
  assumes "n \<noteq> []" "\<not> sublist n (pre @ butlast n)"
  shows "indexOf (pre @ n @ rest) n 0 = int (length pre)"
proof -
  have "scanFor n (pre @ n @ rest) 0 = int (length pre)"
  proof (rule scanFor_first)
    show "prefix n (drop (length pre) (pre @ n @ rest))" by simp
    show "length pre \<le> length (pre @ n @ rest)" by simp
    show "\<forall>i<length pre. \<not> prefix n (drop i (pre @ n @ rest))"
    proof (intro allI impI notI)
      fix i assume i: "i < length pre" and p: "prefix n (drop i (pre @ n @ rest))"
      let ?w = "drop i pre @ butlast n"
      have len: "length n \<le> length ?w" using i by simp
      have "drop i (pre @ n @ rest) = ?w @ ([last n] @ rest)"
        using i assms(1) by simp
      then have "take (length n) (drop i (pre @ n @ rest)) = take (length n) ?w"
        using len by (simp only: take_append) simp
      moreover have "take (length n) (drop i (pre @ n @ rest)) = n"
        using p unfolding prefix_def by (metis append_eq_conv_conj)
      ultimately have "prefix n ?w" by (metis take_is_prefix)
      then have "sublist n ?w" by (rule prefix_imp_sublist)
      moreover have "sublist ?w (pre @ butlast n)"
        by (metis append_take_drop_id append_assoc sublist_append_leftI)
      ultimately have "sublist n (pre @ butlast n)" by (meson sublist_order.order_trans)
      with assms(2) show False by simp
    qed
  qed
  then show ?thesis by (simp add: indexOf_0)
qed

lemma indexOf_shift:
  "indexOf (pre @ s) n (int (length pre)) =
     (if indexOf s n 0 = - 1 then - 1 else indexOf s n 0 + int (length pre))"
  using scanFor_shift [of n s "length pre"] by (simp add: indexOf_def)

lemma closer_in_endTag: "sublist (js '']]'') endTag"
  by (simp add: endTag_eq closer_eq sublist_code)

lemma scan_cases [consumes 0, case_names plain malformed key]:
  obtains (plain) "indexOf r startTag 0 = - 1"
  | (malformed) s where "indexOf r startTag 0 = int s" "s + 10 \<le> length r"
      "indexOf r endTag (int s) = - 1"
  | (key) s e h where "indexOf r startTag 0 = int s" "indexOf r endTag (int s) = int e"
      "indexOf r (js '']]'') (int s) = int h"
      "s + 10 \<le> h" "h \<le> e + 11" "s \<le> e" "e + 13 \<le> length r"
proof (cases "indexOf r startTag 0 = - 1")
  case True
  then show thesis by (rule plain)
next
  case False
  then have "indexOf r startTag (int 0) \<noteq> - 1" by simp
  from indexOf_found [OF _ this]
  obtain s where s: "indexOf r startTag 0 = int s" "s + 10 \<le> length r"
    by (auto simp: length_startTag)
  then have sl: "s \<le> length r" by simp
  show thesis
  proof (cases "indexOf r endTag (int s) = - 1")
    case True
    with s show thesis by (rule malformed)
  next
    case False
    from indexOf_found [OF sl this]
    obtain e where e: "indexOf r endTag (int s) = int e" "s \<le> e" "e + 13 \<le> length r"
      "prefix endTag (drop e r)"
      by (auto simp: length_endTag)
    have "drop e r = drop (e - s) (drop s r)" using e(2) by simp
    then have "sublist (drop e r) (drop s r)" by (metis sublist_drop)
    moreover have "sublist endTag (drop e r)" using e(4) by (rule prefix_imp_sublist)
    ultimately have "sublist (js '']]'') (drop s r)"
      using closer_in_endTag by (meson sublist_order.order_trans)
    then have "indexOf r (js '']]'') (int s) \<noteq> - 1" using sl by (simp add: indexOf_neg_iff)
    from indexOf_found [OF sl this]
    obtain h where h: "indexOf r (js '']]'') (int s) = int h" by auto
    from headerEnd_eq(2,3) [OF s(1) e(1) h] s e h show thesis by (intro key [of s e h])
  qed
qed

lemma matchId_Some: "matchId h = Some t \<Longrightarrow> t \<noteq> [] \<and> (\<forall>c\<in>set t. \<not> isWhiteSpace c)"
proof (induction h)
  case Nil
  then show ?case by simp
next
  case (Cons c cs)
  then show ?case by (auto simp: Let_def split: if_splits dest: set_takeWhileD)
qed

lemma matchTheorem_Some: "matchTheorem h = Some v \<Longrightarrow> 34 \<notin> set v"
proof (induction h)
  case Nil
  then show ?case by simp
next
  case (Cons c cs)
  then show ?case by (auto simp: Let_def split: if_splits dest: set_takeWhileD)
qed

section \<open>The segments of a scan\<close>

lemma segmentsOf_members:
  assumes "seg \<in> set (segmentsOf r)"
  obtains (plain) "seg = normalSeg r" "r \<noteq> []"
  | (before) s where "seg = normalSeg (take s r)" "0 < s" "s + 10 \<le> length r"
  | (rest) s where "seg = normalSeg (drop s r)" "s + 10 \<le> length r"
  | (key) s e h where "s + 10 \<le> h" "h \<le> e + 11" "s \<le> e" "e + 13 \<le> length r"
      "seg = keySeg (take (e - (h + 2)) (drop (h + 2) r))
         (matchId (trim (take (h - (s + 10)) (drop (s + 10) r))))
         (matchTheorem (trim (take (h - (s + 10)) (drop (s + 10) r))))"
  | (later) e where "e + 13 \<le> length r" "seg \<in> set (segmentsOf (drop (e + 13) r))"
proof (cases r rule: scan_cases)
  case plain
  note c = this
  have "segmentsOf r = (if r \<noteq> [] then [normalSeg r] else [])"
    using c by (rule segmentsOf_plain)
  with assms have "seg = normalSeg r \<and> r \<noteq> []" by (simp split: if_splits)
  then show thesis using that(1) by blast
next
  case (malformed s)
  note c = this
  have "segmentsOf r = (if 0 < s then [normalSeg (take s r)] else []) @ [normalSeg (drop s r)]"
    using c(1,3) by (rule segmentsOf_malformed)
  with assms have "seg = normalSeg (take s r) \<and> 0 < s \<or> seg = normalSeg (drop s r)"
    by (auto split: if_splits)
  then show thesis using that(2,3) c(2) by blast
next
  case (key s e h)
  note c = this
  let ?k = "keySeg (take (e - (h + 2)) (drop (h + 2) r))
         (matchId (trim (take (h - (s + 10)) (drop (s + 10) r))))
         (matchTheorem (trim (take (h - (s + 10)) (drop (s + 10) r))))"
  have "segmentsOf r = (if 0 < s then [normalSeg (take s r)] else []) @
     ?k # segmentsOf (drop (e + 13) r)"
    using c(1,2,3) by (rule segmentsOf_key)
  with assms have "seg = normalSeg (take s r) \<and> 0 < s \<or> seg = ?k
      \<or> seg \<in> set (segmentsOf (drop (e + 13) r))"
    by (auto split: if_splits)
  moreover have "s + 10 \<le> length r" using c(4,5,7) by simp
  ultimately show thesis using that(2,4,5) c(4-7) by blast
qed

lemma segmentsOf_normal_nonempty:
  "seg \<in> set (segmentsOf r) \<Longrightarrow> seg_type seg = Normal \<Longrightarrow> seg_text seg \<noteq> []"
proof (induction r rule: length_induct)
  case (1 r)
  from 1(2) show ?case
  proof (cases rule: segmentsOf_members)
    case plain
    then show ?thesis by (simp add: normalSeg_def)
  next
    case (before s)
    then show ?thesis by (auto simp: normalSeg_def)
  next
    case (rest s)
    then show ?thesis by (auto simp: normalSeg_def)
  next
    case (key s e h)
    with 1(3) show ?thesis by (simp add: keySeg_def)
  next
    case (later e)
    then have "length (drop (e + 13) r) < length r" by simp
    with 1(1) later(2) 1(3) show ?thesis by blast
  qed
qed

lemma segmentsOf_key_attributes:
  "seg \<in> set (segmentsOf r) \<Longrightarrow>
     (\<forall>i. seg_id seg = Some i \<longrightarrow> i \<noteq> [] \<and> (\<forall>c\<in>set i. \<not> isWhiteSpace c)) \<and>
     (\<forall>t. seg_theorem seg = Some t \<longrightarrow> 34 \<notin> set t)"
proof (induction r rule: length_induct)
  case (1 r)
  from 1(2) show ?case
  proof (cases rule: segmentsOf_members)
    case plain
    then show ?thesis by (simp add: normalSeg_def)
  next
    case (before s)
    then show ?thesis by (simp add: normalSeg_def)
  next
    case (rest s)
    then show ?thesis by (simp add: normalSeg_def)
  next
    case (key s e h)
    let ?hdr = "trim (take (h - (s + 10)) (drop (s + 10) r))"
    have i: "seg_id seg = matchId ?hdr" and t: "seg_theorem seg = matchTheorem ?hdr"
      using key(5) by (simp_all add: keySeg_def)
    show ?thesis
      unfolding i t using matchId_Some [of ?hdr] matchTheorem_Some [of ?hdr] by blast
  next
    case (later e)
    then have "length (drop (e + 13) r) < length r" by simp
    with 1(1) later(2) show ?thesis by blast
  qed
qed

lemma segmentsOf_Nil: "segmentsOf [] = []"
  by (simp add: segmentsOf_plain indexOf_0 startTag_eq)

text \<open>
  The same iterations in terms of the text itself: a start marker, a header without
  \<open>]]\<close>, the closing \<open>]]\<close>, a body and the first terminator after the start marker.
\<close>

lemma segmentsOf_wrapper:
  assumes a1: "\<not> sublist startTag (pre @ butlast startTag)"
    and a2: "\<not> sublist (js '']]'') (startTag @ hdr @ [93])"
    and a3: "\<not> sublist endTag (startTag @ hdr @ js '']]'' @ body @ butlast endTag)"
  shows "segmentsOf (pre @ startTag @ hdr @ js '']]'' @ body @ endTag @ rest) =
     (if pre \<noteq> [] then [normalSeg pre] else []) @
     keySeg body (matchId (trim hdr)) (matchTheorem (trim hdr)) # segmentsOf rest"
proof -
  let ?c = "js '']]''"
  let ?r' = "startTag @ hdr @ ?c @ body @ endTag @ rest"
  let ?r = "pre @ ?r'"
  let ?s = "length pre"
  let ?h = "length (pre @ startTag @ hdr)"
  let ?e = "length (pre @ startTag @ hdr @ ?c @ body)"
  have lc: "length ?c = 2" by (simp add: closer_eq)
  have s: "indexOf ?r startTag 0 = int ?s"
    by (rule indexOf_first_occurrence [OF _ a1]) (simp add: startTag_eq)
  have "indexOf ((startTag @ hdr @ ?c @ body) @ endTag @ rest) endTag 0
      = int (length (startTag @ hdr @ ?c @ body))"
    by (rule indexOf_first_occurrence) (use a3 in \<open>simp_all add: endTag_eq\<close>)
  then have e': "indexOf ?r' endTag 0 = int (length (startTag @ hdr @ ?c @ body))" by simp
  have e: "indexOf ?r endTag (int ?s) = int ?e"
    unfolding indexOf_shift [of pre ?r' endTag] e' by simp
  have "indexOf ((startTag @ hdr) @ ?c @ (body @ endTag @ rest)) ?c 0
      = int (length (startTag @ hdr))"
    by (rule indexOf_first_occurrence) (use a2 in \<open>simp_all add: closer_eq\<close>)
  then have h': "indexOf ?r' ?c 0 = int (length (startTag @ hdr))" by simp
  have h: "indexOf ?r ?c (int ?s) = int ?h"
    unfolding indexOf_shift [of pre ?r' ?c] h' by simp
  have body: "take (?e - (?h + 2)) (drop (?h + 2) ?r) = body"
  proof -
    have "?h + 2 = length (pre @ startTag @ hdr @ ?c)" by (simp add: lc)
    moreover have "?r = (pre @ startTag @ hdr @ ?c) @ body @ endTag @ rest" by simp
    ultimately have "drop (?h + 2) ?r = body @ endTag @ rest" by (metis append_eq_conv_conj)
    moreover have "?e - (?h + 2) = length body" by (simp add: lc)
    ultimately show ?thesis by simp
  qed
  have hdr: "take (?h - (?s + 10)) (drop (?s + 10) ?r) = hdr"
  proof -
    have "?s + 10 = length (pre @ startTag)" by (simp add: length_startTag)
    moreover have "?r = (pre @ startTag) @ hdr @ ?c @ body @ endTag @ rest" by simp
    ultimately have "drop (?s + 10) ?r = hdr @ ?c @ body @ endTag @ rest"
      by (metis append_eq_conv_conj)
    moreover have "?h - (?s + 10) = length hdr" by (simp add: length_startTag)
    ultimately show ?thesis by simp
  qed
  have rest: "drop (?e + 13) ?r = rest"
  proof -
    have "?e + 13 = length (pre @ startTag @ hdr @ ?c @ body @ endTag)" by (simp add: length_endTag)
    moreover have "?r = (pre @ startTag @ hdr @ ?c @ body @ endTag) @ rest" by simp
    ultimately show ?thesis by (metis append_eq_conv_conj)
  qed
  have pre: "take ?s ?r = pre" by simp
  show ?thesis
    unfolding segmentsOf_key [OF s e h] body hdr rest pre by simp
qed

lemma segmentsOf_no_marker:
  "\<not> sublist startTag r \<Longrightarrow> segmentsOf r = (if r \<noteq> [] then [normalSeg r] else [])"
  using indexOf_neg_iff [of 0 r startTag] by (simp add: segmentsOf_plain)

lemma segmentsOf_unterminated:
  assumes "\<not> sublist startTag (pre @ butlast startTag)" "\<not> sublist endTag (startTag @ rest)"
  shows "segmentsOf (pre @ startTag @ rest) =
     (if pre \<noteq> [] then [normalSeg pre] else []) @ [normalSeg (startTag @ rest)]"
proof -
  let ?r = "pre @ startTag @ rest"
  have s: "indexOf ?r startTag 0 = int (length pre)"
    by (rule indexOf_first_occurrence [OF _ assms(1)]) (simp add: startTag_eq)
  have e: "indexOf ?r endTag (int (length pre)) = - 1"
    using assms(2) indexOf_neg_iff [of "length pre" ?r endTag] by simp
  show ?thesis unfolding segmentsOf_malformed [OF s e] by simp
qed

lemma indexOf_later_start:
  assumes k: "indexOf r n (int p) = int k" and pl: "p \<le> length r" and pq: "p \<le> q" and qk: "q \<le> k"
  shows "indexOf r n (int q) = int k"
proof -
  have "indexOf r n (int p) \<noteq> - 1" using k by simp
  from indexOf_found [OF pl this] k
  have kl: "k + length n \<le> length r" and pk: "prefix n (drop k r)"
    and least: "\<And>i. p \<le> i \<Longrightarrow> i < k \<Longrightarrow> \<not> prefix n (drop i r)"
    by auto
  have ql: "q \<le> length r" using qk kl by simp
  have "scanFor n (drop q r) 0 = int (k - q)"
  proof (rule scanFor_first)
    show "prefix n (drop (k - q) (drop q r))" using pk qk by simp
    show "k - q \<le> length (drop q r)" using kl by simp
    show "\<forall>i<k - q. \<not> prefix n (drop i (drop q r))"
    proof (intro allI impI)
      fix i assume "i < k - q"
      then have "p \<le> i + q" "i + q < k" using pq by simp_all
      from least [OF this] show "\<not> prefix n (drop i (drop q r))" by simp
    qed
  qed
  then show ?thesis
    using scanFor_shift [of n "drop q r" q] qk by (simp add: indexOf_scan [OF ql])
qed

lemma matchTheorem_skip:
  "k \<le> length s \<Longrightarrow> \<forall>i<k. \<not> prefix (js ''theorem='' @ [34]) (drop i s) \<Longrightarrow>
     matchTheorem s = matchTheorem (drop k s)"
proof (induction k arbitrary: s)
  case 0
  show ?case by simp
next
  case (Suc k)
  then obtain c cs where s: "s = c # cs" by (cases s) auto
  from Suc.prems(2) have "\<not> prefix (js ''theorem='' @ [34]) (drop 0 s)" by blast
  then have np: "\<not> prefix (js ''theorem='' @ [34]) (c # cs)" by (simp add: s)
  have "k \<le> length cs" using Suc.prems(1) s by simp
  moreover have "\<forall>i<k. \<not> prefix (js ''theorem='' @ [34]) (drop i cs)"
  proof (intro allI impI)
    fix i assume "i < k"
    then have "Suc i < Suc k" by simp
    with Suc.prems(2) have "\<not> prefix (js ''theorem='' @ [34]) (drop (Suc i) s)" by blast
    then show "\<not> prefix (js ''theorem='' @ [34]) (drop i cs)" by (simp add: s)
  qed
  ultimately have "matchTheorem cs = matchTheorem (drop k cs)" by (rule Suc.IH)
  moreover have "matchTheorem (c # cs) = matchTheorem cs" using np by (simp add: Let_def)
  ultimately show ?case by (simp add: s)
qed

lemma matchTheorem_here:
  assumes "34 \<notin> set v"
  shows "matchTheorem (js ''theorem='' @ [34] @ v @ [34] @ rest) = Some v"
proof -
  have t: "js ''theorem='' @ [34] = [116, 104, 101, 111, 114, 101, 109, 61, 34]"
    by (simp add: js_def)
  have tw: "takeWhile (\<lambda>x. x \<noteq> 34) (v @ 34 # rest) = v"
    using assms by (induction v) auto
  have "matchTheorem ([116, 104, 101, 111, 114, 101, 109, 61, 34] @ v @ [34] @ rest) = Some v"
    by (simp add: Let_def t tw)
  then show ?thesis using t by simp
qed

section \<open>Totality\<close>

text \<open>
  Claim C5. \<open>parseKeySteps\<close> is total: for every input the loop ends and returns a list
  of segments. An iteration either ends the scan or, when both markers are found, goes on
  with a strictly shorter text.
\<close>

theorem parseKeySteps_total:
  "(\<exists>segments. parseKeySteps text = Some segments) \<and>
   (indexOf remaining startTag 0 \<noteq> - 1 \<and>
    indexOf remaining endTag (indexOf remaining startTag 0) \<noteq> - 1 \<longrightarrow>
      length (sliceFrom remaining
        (indexOf remaining endTag (indexOf remaining startTag 0) + int (length endTag)))
      < length remaining)"
proof (intro conjI impI)
  show "\<exists>segments. parseKeySteps text = Some segments"
    by (simp add: parseKeySteps_def parseLoop_eq)
next
  assume a: "indexOf remaining startTag 0 \<noteq> - 1 \<and>
    indexOf remaining endTag (indexOf remaining startTag 0) \<noteq> - 1"
  then have "indexOf remaining startTag 0 \<noteq> - 1"
    "indexOf remaining endTag (indexOf remaining startTag 0) \<noteq> - 1" by simp_all
  from loop_indices [OF this]
  obtain s e where se: "indexOf remaining startTag 0 = int s"
    "indexOf remaining endTag (int s) = int e" "e + 13 \<le> length remaining"
    by auto
  have "sliceFrom remaining (int e + int (length endTag)) = drop (e + 13) remaining"
    using sliceFrom_nat [of remaining "e + 13"] by (simp add: length_endTag)
  then show "length (sliceFrom remaining
        (indexOf remaining endTag (indexOf remaining startTag 0) + int (length endTag)))
      < length remaining"
    unfolding se(1) se(2) using se(3) by simp
qed

theorem parseKeySteps_total_witness:
  "indexOf (js ''[[KEY_STEP]]b[[/KEY_STEP]]'') startTag 0 = 0
   \<and> indexOf (js ''[[KEY_STEP]]b[[/KEY_STEP]]'') endTag 0 = 13
   \<and> (0::int) \<noteq> - 1 \<and> (13::int) \<noteq> - 1
   \<and> length (sliceFrom (js ''[[KEY_STEP]]b[[/KEY_STEP]]'') (13 + int (length endTag)))
       < length (js ''[[KEY_STEP]]b[[/KEY_STEP]]'')"
proof -
  let ?x = "js ''[[KEY_STEP]]b[[/KEY_STEP]]''"
  have x: "?x = [91, 91, 75, 69, 89, 95, 83, 84, 69, 80, 93, 93, 98,
      91, 91, 47, 75, 69, 89, 95, 83, 84, 69, 80, 93, 93]"
    by (simp add: js_def)
  have s: "indexOf ?x startTag 0 = 0" and e: "indexOf ?x endTag 0 = 13"
    unfolding x by (simp_all add: indexOf_def startTag_eq endTag_eq)
  have h: "indexOf ?x startTag 0 \<noteq> - 1 \<and> indexOf ?x endTag (indexOf ?x startTag 0) \<noteq> - 1"
    unfolding s e by simp
  note parseKeySteps_total [of "?x" "?x", THEN conjunct2, rule_format, OF h, unfolded s e]
  with s e show ?thesis by simp
qed

section \<open>Text without markers, and unterminated markers\<close>

text \<open>
  Claim C3, as amended. For every input that is not empty and contains no occurrence of
  \<open>[[KEY_STEP\<close>, \<open>parseKeySteps\<close> returns exactly one Normal segment whose text is the
  input. (The empty string gives no segment: the guard \<open>if (remaining)\<close> skips the push.)
\<close>

theorem plain_text_single_segment:
  "text \<noteq> [] \<Longrightarrow> \<not> sublist startTag text \<Longrightarrow> parseKeySteps text = Some [normalSeg text]"
  by (simp add: parseKeySteps_def parseLoop_eq segmentsOf_no_marker)

theorem plain_text_single_segment_witness:
  "js ''Let $x$ be a point.'' \<noteq> [] \<and> \<not> sublist startTag (js ''Let $x$ be a point.'')
   \<and> parseKeySteps (js ''Let $x$ be a point.'') = Some [normalSeg (js ''Let $x$ be a point.'')]"
proof -
  have h: "js ''Let $x$ be a point.'' \<noteq> []" "\<not> sublist startTag (js ''Let $x$ be a point.'')"
    by (simp_all add: startTag_eq js_def sublist_code)
  show ?thesis using h plain_text_single_segment [OF h] by simp
qed

text \<open>
  The claim as stated includes the empty string, which parses to the empty list and not
  to one empty Normal segment.
\<close>

theorem empty_input_counterexample:
  "\<not> sublist startTag [] \<and> parseKeySteps [] = Some [] \<and> parseKeySteps [] \<noteq> Some [normalSeg []]"
  by (simp add: parseKeySteps_def parseLoop_eq segmentsOf_Nil startTag_eq)

text \<open>
  Claim C2. When the start marker the scan finds has no terminator after it, the loop
  pushes the text before the marker (if any), then the whole rest from the marker on as
  one Normal segment, and returns. In particular \<open>a [[KEY_STEP id=1]] b\<close> parses to
  Normal \<open>a \<close> followed by Normal \<open>[[KEY_STEP id=1]] b\<close>.
\<close>

theorem unterminated_marker:
  "(\<not> sublist startTag (pre @ butlast startTag) \<and> \<not> sublist endTag (startTag @ rest) \<longrightarrow>
      parseLoop (pre @ startTag @ rest) segments =
        Some (segments @ (if pre \<noteq> [] then [normalSeg pre] else []) @ [normalSeg (startTag @ rest)]))
   \<and> parseKeySteps (js ''a [[KEY_STEP id=1]] b'')
        = Some [normalSeg (js ''a ''), normalSeg (js ''[[KEY_STEP id=1]] b'')]"
proof (intro conjI impI)
  assume "\<not> sublist startTag (pre @ butlast startTag) \<and> \<not> sublist endTag (startTag @ rest)"
  then show "parseLoop (pre @ startTag @ rest) segments =
        Some (segments @ (if pre \<noteq> [] then [normalSeg pre] else []) @ [normalSeg (startTag @ rest)])"
    by (simp add: parseLoop_eq segmentsOf_unterminated)
next
  have d: "js ''a [[KEY_STEP id=1]] b'' = js ''a '' @ startTag @ js '' id=1]] b''"
    and d': "js ''[[KEY_STEP id=1]] b'' = startTag @ js '' id=1]] b''"
    by (simp_all add: js_def startTag_def)
  have "segmentsOf (js ''a '' @ startTag @ js '' id=1]] b'') =
     (if js ''a '' \<noteq> [] then [normalSeg (js ''a '')] else []) @ [normalSeg (startTag @ js '' id=1]] b'')]"
    by (rule segmentsOf_unterminated) (simp_all add: startTag_eq endTag_eq js_def sublist_code)
  then show "parseKeySteps (js ''a [[KEY_STEP id=1]] b'')
        = Some [normalSeg (js ''a ''), normalSeg (js ''[[KEY_STEP id=1]] b'')]"
    unfolding parseKeySteps_def parseLoop_eq d d' by (simp add: js_def)
qed

theorem unterminated_marker_witness:
  "\<not> sublist startTag (js ''see '' @ butlast startTag)
   \<and> \<not> sublist endTag (startTag @ js '' theorem=x]] y'')
   \<and> parseLoop (js ''see '' @ startTag @ js '' theorem=x]] y'') [] =
        Some [normalSeg (js ''see ''), normalSeg (startTag @ js '' theorem=x]] y'')]"
proof -
  have h: "\<not> sublist startTag (js ''see '' @ butlast startTag)
      \<and> \<not> sublist endTag (startTag @ js '' theorem=x]] y'')"
    by (simp add: startTag_eq endTag_eq js_def sublist_code)
  have n: "js ''see '' \<noteq> []" by (simp add: js_def)
  show ?thesis
    using h n unterminated_marker [of "js ''see ''" "js '' theorem=x]] y''" "[]"]
    by simp
qed

section \<open>Invariants of the segments\<close>

text \<open>
  Claim C9. Every segment of type Normal that \<open>parseKeySteps\<close> returns has a text that
  is not empty, and the empty string parses to the empty list of segments.
\<close>

theorem normal_segments_nonempty:
  "parseKeySteps [] = Some [] \<and>
   (\<forall>segments seg. parseKeySteps text = Some segments \<longrightarrow> seg \<in> set segments \<longrightarrow>
      seg_type seg = Normal \<longrightarrow> seg_text seg \<noteq> [])"
proof (intro conjI allI impI)
  show "parseKeySteps [] = Some []"
    by (simp add: parseKeySteps_def parseLoop_eq segmentsOf_Nil)
next
  fix segments seg
  assume "parseKeySteps text = Some segments" "seg \<in> set segments" "seg_type seg = Normal"
  then show "seg_text seg \<noteq> []"
    using segmentsOf_normal_nonempty [of seg "text"]
    by (simp add: parseKeySteps_def parseLoop_eq)
qed

theorem normal_segments_nonempty_witness:
  "parseKeySteps (js ''a [[KEY_STEP]]b[[/KEY_STEP]]'')
     = Some [normalSeg (js ''a ''), keySeg (js ''b'') None None]
   \<and> normalSeg (js ''a '') \<in> set [normalSeg (js ''a ''), keySeg (js ''b'') None None]
   \<and> seg_type (normalSeg (js ''a '')) = Normal
   \<and> seg_text (normalSeg (js ''a '')) \<noteq> []"
proof -
  let ?n = "normalSeg (js ''a '')"
  let ?l = "[?n, keySeg (js ''b'') None None]"
  have d: "js ''a [[KEY_STEP]]b[[/KEY_STEP]]''
     = js ''a '' @ startTag @ [] @ js '']]'' @ js ''b'' @ endTag @ []"
    by (simp add: js_def startTag_def endTag_def)
  have "segmentsOf (js ''a '' @ startTag @ [] @ js '']]'' @ js ''b'' @ endTag @ [])
     = (if js ''a '' \<noteq> [] then [?n] else []) @
       keySeg (js ''b'') (matchId (trim [])) (matchTheorem (trim [])) # segmentsOf []"
    by (rule segmentsOf_wrapper) (simp_all add: startTag_eq endTag_eq closer_eq js_def sublist_code)
  then have h: "parseKeySteps (js ''a [[KEY_STEP]]b[[/KEY_STEP]]'') = Some ?l"
    unfolding parseKeySteps_def parseLoop_eq d
    by (simp add: segmentsOf_Nil trim_def js_def)
  have m: "?n \<in> set ?l" by simp
  have t: "seg_type ?n = Normal" by (simp add: normalSeg_def)
  note normal_segments_nonempty [of "js ''a [[KEY_STEP]]b[[/KEY_STEP]]''",
    THEN conjunct2, rule_format, OF h m t]
  with h m t show ?thesis by (intro conjI)
qed

text \<open>
  Claim C10. In every segment of type Key that \<open>parseKeySteps\<close> returns, an id that is
  present is a non-empty token without white space, and a theorem that is present
  contains no double quote (code unit 34).
\<close>

theorem key_attributes_wellformed:
  "parseKeySteps text = Some segments \<Longrightarrow> seg \<in> set segments \<Longrightarrow> seg_type seg = Key \<Longrightarrow>
     (\<forall>i. seg_id seg = Some i \<longrightarrow> i \<noteq> [] \<and> (\<forall>c\<in>set i. \<not> isWhiteSpace c)) \<and>
     (\<forall>t. seg_theorem seg = Some t \<longrightarrow> 34 \<notin> set t)"
  using segmentsOf_key_attributes [of seg "text"]
  by (simp add: parseKeySteps_def parseLoop_eq)

theorem key_attributes_wellformed_witness:
  "parseKeySteps (js ''[[KEY_STEP id=42]]x[[/KEY_STEP]]'')
     = Some [keySeg (js ''x'') (Some (js ''42'')) None]
   \<and> seg_type (keySeg (js ''x'') (Some (js ''42'')) None) = Key
   \<and> js ''42'' = [52, 50] \<and> \<not> isWhiteSpace 52 \<and> \<not> isWhiteSpace 50"
proof -
  let ?k = "keySeg (js ''x'') (Some (js ''42'')) None"
  have d: "js ''[[KEY_STEP id=42]]x[[/KEY_STEP]]''
     = [] @ startTag @ js '' id=42'' @ js '']]'' @ js ''x'' @ endTag @ []"
    by (simp add: js_def startTag_def endTag_def)
  have a: "trim (js '' id=42'') = js ''id=42''"
    by (simp add: trim_def js_def isWhiteSpace_def)
  have b: "matchId (js ''id=42'') = Some (js ''42'')"
    by (simp add: js_def isWhiteSpace_def Let_def)
  have c: "matchTheorem (js ''id=42'') = None"
    by (simp add: js_def Let_def)
  have "segmentsOf ([] @ startTag @ js '' id=42'' @ js '']]'' @ js ''x'' @ endTag @ [])
     = (if [] \<noteq> ([]::jsstring) then [normalSeg []] else []) @
       keySeg (js ''x'') (matchId (trim (js '' id=42''))) (matchTheorem (trim (js '' id=42'')))
         # segmentsOf []"
    by (rule segmentsOf_wrapper) (simp_all add: startTag_eq endTag_eq closer_eq js_def sublist_code)
  then have h: "parseKeySteps (js ''[[KEY_STEP id=42]]x[[/KEY_STEP]]'') = Some [?k]"
    unfolding parseKeySteps_def parseLoop_eq d a b c
    by (simp add: segmentsOf_Nil)
  have t: "seg_type ?k = Key" and i: "seg_id ?k = Some (js ''42'')"
    by (simp_all add: keySeg_def)
  have m: "?k \<in> set [?k]" by simp
  have v: "js ''42'' = [52, 50]" by (simp add: js_def)
  note key_attributes_wellformed [OF h m t, THEN conjunct1, rule_format, OF i]
  then have "\<not> isWhiteSpace 52 \<and> \<not> isWhiteSpace 50" unfolding v by simp
  with h t v show ?thesis by (intro conjI) simp_all
qed

section \<open>The attribute example\<close>

lemma hdr_eval:
  "trim (js '' id=7 theorem='' @ [34] @ js ''Hahn-Banach'' @ [34]) = js ''id=7 theorem='' @ [34] @ js ''Hahn-Banach'' @ [34]"
  by (simp add: trim_def js_def isWhiteSpace_def)

lemma id_eval: "matchId (js ''id=7 theorem='' @ [34] @ js ''Hahn-Banach'' @ [34]) = Some (js ''7'')"
  by (simp add: js_def isWhiteSpace_def Let_def)

lemma thm_eval: "matchTheorem (js ''id=7 theorem='' @ [34] @ js ''Hahn-Banach'' @ [34]) = Some (js ''Hahn-Banach'')"
  by (simp add: js_def Let_def)

text \<open>
  Claim C4. The input \<open>[[KEY_STEP id=7 theorem="Hahn-Banach"]]proof body[[/KEY_STEP]]\<close>
  parses to exactly one segment, a key step with id \<open>7\<close>, theorem \<open>Hahn-Banach\<close> and
  text \<open>proof body\<close>.
\<close>

theorem attribute_extraction_example:
  "parseKeySteps (js ''[[KEY_STEP id=7 theorem='' @ [34] @ js ''Hahn-Banach'' @ [34] @ js '']]proof body[[/KEY_STEP]]'')
     = Some [\<lparr>seg_type = Key, seg_text = js ''proof body'', seg_id = Some (js ''7''),
               seg_theorem = Some (js ''Hahn-Banach'')\<rparr>]"
proof -
  let ?hdr = "js '' id=7 theorem='' @ [34] @ js ''Hahn-Banach'' @ [34]"
  have d: "js ''[[KEY_STEP id=7 theorem='' @ [34] @ js ''Hahn-Banach'' @ [34] @ js '']]proof body[[/KEY_STEP]]''
     = [] @ startTag @ ?hdr @ js '']]'' @ js ''proof body'' @ endTag @ []"
    by (simp add: js_def startTag_def endTag_def)
  have "segmentsOf ([] @ startTag @ ?hdr @ js '']]'' @ js ''proof body'' @ endTag @ [])
     = (if [] \<noteq> ([]::jsstring) then [normalSeg []] else []) @
       keySeg (js ''proof body'') (matchId (trim ?hdr)) (matchTheorem (trim ?hdr)) # segmentsOf []"
    by (rule segmentsOf_wrapper) (simp_all add: startTag_eq endTag_eq closer_eq js_def sublist_code)
  then show ?thesis
    unfolding parseKeySteps_def parseLoop_eq d hdr_eval id_eval thm_eval
    by (simp add: segmentsOf_Nil keySeg_def)
qed

section \<open>The theorem attribute\<close>

text \<open>
  Claim C8, as amended. When a header contains \<open>theorem="\<close> and a double quote after
  it, the extracted value is everything after the first \<open>theorem="\<close> up to the next
  double quote. The pattern \<open>[^"]*\<close> knows no escape: a backslash is an ordinary
  character of the value, and a quote after a backslash ends the value.
\<close>

theorem theorem_value_to_next_quote:
  assumes "\<not> sublist (js ''theorem='' @ [34]) (pre @ js ''theorem='')" and "34 \<notin> set v"
  shows "matchTheorem (pre @ js ''theorem='' @ [34] @ v @ [34] @ rest) = Some v"
proof -
  let ?T = "js ''theorem='' @ [34]"
  let ?s = "pre @ ?T @ v @ [34] @ rest"
  have b: "butlast ?T = js ''theorem=''" by (simp add: butlast_append)
  have "indexOf ?s ?T 0 = int (length pre)"
    by (rule indexOf_first_occurrence) (use assms(1) b in simp_all)
  then have "scanFor ?T ?s 0 = int (length pre)" by (simp only: indexOf_0)
  from scanFor_found [OF this]
  have "\<forall>i<length pre. \<not> prefix ?T (drop i ?s)" by blast
  then have "matchTheorem ?s = matchTheorem (drop (length pre) ?s)"
    by (intro matchTheorem_skip) simp_all
  also have "drop (length pre) ?s = ?T @ v @ [34] @ rest" by simp
  also have "matchTheorem (?T @ v @ [34] @ rest) = Some v"
    using matchTheorem_here [OF assms(2), of rest] by simp
  finally show ?thesis by simp
qed

theorem theorem_value_to_next_quote_witness:
  "\<not> sublist (js ''theorem='' @ [34]) (js ''id=3 '' @ js ''theorem='')
   \<and> 34 \<notin> set (js ''Open Mapping'')
   \<and> matchTheorem (js ''id=3 '' @ js ''theorem='' @ [34] @ js ''Open Mapping'' @ [34] @ js '' x'')
       = Some (js ''Open Mapping'')"
proof -
  have h: "\<not> sublist (js ''theorem='' @ [34]) (js ''id=3 '' @ js ''theorem='')"
    "34 \<notin> set (js ''Open Mapping'')"
    by (simp_all add: js_def sublist_code)
  from h theorem_value_to_next_quote [OF h, of "js '' x''"] show ?thesis by (intro conjI)
qed

text \<open>
  The claim as stated says that a quote after a backslash does not end the value. For the
  header \<open>theorem="a\<bsol>"b"\<close> (the backslash is code unit 92) the parser returns the value
  \<open>a\<bsol>\<close> and not \<open>a\<bsol>"b\<close>.
\<close>

theorem escaped_quote_counterexample:
  "parseKeySteps (js ''[[KEY_STEP theorem='' @ [34] @ js ''a'' @ [92, 34] @ js ''b'' @ [34]
       @ js '']]x[[/KEY_STEP]]'')
     = Some [keySeg (js ''x'') None (Some (js ''a'' @ [92]))]
   \<and> js ''a'' @ [92] \<noteq> js ''a'' @ [92, 34] @ js ''b''"
proof -
  let ?hdr = "js '' theorem='' @ [34] @ js ''a'' @ [92, 34] @ js ''b'' @ [34]"
  have d: "js ''[[KEY_STEP theorem='' @ [34] @ js ''a'' @ [92, 34] @ js ''b'' @ [34]
       @ js '']]x[[/KEY_STEP]]''
     = [] @ startTag @ ?hdr @ js '']]'' @ js ''x'' @ endTag @ []"
    by (simp add: js_def startTag_def endTag_def)
  have a: "trim ?hdr = js ''theorem='' @ [34] @ js ''a'' @ [92, 34] @ js ''b'' @ [34]"
    by (simp add: trim_def js_def isWhiteSpace_def)
  have b: "matchId (js ''theorem='' @ [34] @ js ''a'' @ [92, 34] @ js ''b'' @ [34]) = None"
    by (simp add: js_def isWhiteSpace_def Let_def)
  have c: "matchTheorem (js ''theorem='' @ [34] @ js ''a'' @ [92, 34] @ js ''b'' @ [34])
      = Some (js ''a'' @ [92])"
    by (simp add: js_def Let_def)
  have "segmentsOf ([] @ startTag @ ?hdr @ js '']]'' @ js ''x'' @ endTag @ [])
     = (if [] \<noteq> ([]::jsstring) then [normalSeg []] else []) @
       keySeg (js ''x'') (matchId (trim ?hdr)) (matchTheorem (trim ?hdr)) # segmentsOf []"
    by (rule segmentsOf_wrapper) (simp_all add: startTag_eq endTag_eq closer_eq js_def sublist_code)
  then have "parseKeySteps (js ''[[KEY_STEP theorem='' @ [34] @ js ''a'' @ [92, 34] @ js ''b'' @ [34]
       @ js '']]x[[/KEY_STEP]]'')
     = Some [keySeg (js ''x'') None (Some (js ''a'' @ [92]))]"
    unfolding parseKeySteps_def parseLoop_eq d a b c
    by (simp add: segmentsOf_Nil)
  moreover have "js ''a'' @ [92] \<noteq> js ''a'' @ [92, 34] @ js ''b''" by simp
  ultimately show ?thesis by (intro conjI)
qed

section \<open>Pairing a start marker with its terminator\<close>

text \<open>
  Claim C7, as amended. After a start marker is found at \<open>s\<close>, the terminator is
  searched from \<open>s\<close> on (\<open>remaining.indexOf(endTag, startIdx)\<close>). When the first
  \<open>]]\<close> after the marker, at \<open>h\<close>, closes the header before that terminator, at
  \<open>e\<close>, the terminator is also the first one after the header, the body of the key step
  is exactly the text from \<open>h + 2\<close> up to \<open>e\<close>, and the loop goes on with the text
  after the terminator.
\<close>

theorem terminator_search:
  assumes "indexOf remaining startTag 0 = int s"
    and "indexOf remaining endTag (int s) = int e"
    and "indexOf remaining (js '']]'') (int s) = int h"
    and "h + 2 \<le> e"
  shows "indexOf remaining endTag (int (h + 2)) = int e \<and>
    parseLoop remaining segments =
      parseLoop (drop (e + 13) remaining)
        (segments @ (if 0 < s then [normalSeg (take s remaining)] else []) @
          [keySeg (take (e - (h + 2)) (drop (h + 2) remaining))
             (matchId (trim (take (h - (s + 10)) (drop (s + 10) remaining))))
             (matchTheorem (trim (take (h - (s + 10)) (drop (s + 10) remaining))))])"
proof
  have "indexOf remaining startTag (int 0) \<noteq> - 1" using assms(1) by simp
  from indexOf_found [OF _ this] assms(1) have sl: "s \<le> length remaining" by auto
  have "s \<le> h" using headerEnd_eq(2) [OF assms(1-3)] by simp
  then show "indexOf remaining endTag (int (h + 2)) = int e"
    using assms(4) by (intro indexOf_later_start [OF assms(2) sl]) simp_all
next
  show "parseLoop remaining segments =
      parseLoop (drop (e + 13) remaining)
        (segments @ (if 0 < s then [normalSeg (take s remaining)] else []) @
          [keySeg (take (e - (h + 2)) (drop (h + 2) remaining))
             (matchId (trim (take (h - (s + 10)) (drop (s + 10) remaining))))
             (matchTheorem (trim (take (h - (s + 10)) (drop (s + 10) remaining))))])"
    unfolding parseLoop_eq segmentsOf_key [OF assms(1-3)] by simp
qed

lemma x_eval:
  "js ''p[[KEY_STEP id=1]]q[[/KEY_STEP]]r'' =
     [112, 91, 91, 75, 69, 89, 95, 83, 84, 69, 80, 32, 105, 100, 61, 49, 93, 93, 113,
      91, 91, 47, 75, 69, 89, 95, 83, 84, 69, 80, 93, 93, 114]"
  by (simp add: js_def)

theorem terminator_search_witness:
  "indexOf (js ''p[[KEY_STEP id=1]]q[[/KEY_STEP]]r'') startTag 0 = 1
   \<and> indexOf (js ''p[[KEY_STEP id=1]]q[[/KEY_STEP]]r'') endTag 1 = 19
   \<and> indexOf (js ''p[[KEY_STEP id=1]]q[[/KEY_STEP]]r'') (js '']]'') 1 = 16
   \<and> (16::nat) + 2 \<le> 19
   \<and> indexOf (js ''p[[KEY_STEP id=1]]q[[/KEY_STEP]]r'') endTag 18 = 19
   \<and> parseLoop (js ''p[[KEY_STEP id=1]]q[[/KEY_STEP]]r'') [] =
        parseLoop (js ''r'') [normalSeg (js ''p''), keySeg (js ''q'') (Some (js ''1'')) None]"
proof -
  let ?x = "js ''p[[KEY_STEP id=1]]q[[/KEY_STEP]]r''"
  have s: "indexOf ?x startTag 0 = int 1"
    and e: "indexOf ?x endTag (int 1) = int 19"
    and h: "indexOf ?x (js '']]'') (int 1) = int 16"
    unfolding x_eval by (simp_all add: indexOf_def startTag_eq endTag_eq closer_eq)
  have le: "(16::nat) + 2 \<le> 19" by simp
  have t: "take (19 - (16 + 2)) (drop (16 + 2) ?x) = js ''q''"
       "take (16 - (1 + 10)) (drop (1 + 10) ?x) = js '' id=1''"
       "take 1 ?x = js ''p''" "drop (19 + 13) ?x = js ''r''"
    by (simp_all add: js_def)
  have a: "trim (js '' id=1'') = js ''id=1''"
    by (simp add: trim_def js_def isWhiteSpace_def)
  have b: "matchId (js ''id=1'') = Some (js ''1'')"
    by (simp add: js_def isWhiteSpace_def Let_def)
  have c: "matchTheorem (js ''id=1'') = None"
    by (simp add: js_def Let_def)
  note terminator_search [OF s e h le, of "[]", unfolded t a b c]
  with s e h show ?thesis by simp
qed

lemma header_in_terminator_eval:
  "trim (js ''[[/KEY_STEP'') = js ''[[/KEY_STEP''"
  "matchId (js ''[[/KEY_STEP'') = None"
  "matchTheorem (js ''[[/KEY_STEP'') = None"
  by (simp_all add: trim_def js_def isWhiteSpace_def Let_def)

text \<open>
  The claim as stated has the search begin after the header. In the input below the
  first \<open>]]\<close> after the start marker is at index 21 and belongs to a terminator that
  begins at index 10, inside the header. The first terminator after the header end (23) is
  at 27, yet the key step has an empty body and the scan resumes at 23.
\<close>

theorem terminator_before_header_end_counterexample:
  "indexOf (js ''[[KEY_STEP[[/KEY_STEP]]body[[/KEY_STEP]]tail'') startTag 0 = 0
   \<and> indexOf (js ''[[KEY_STEP[[/KEY_STEP]]body[[/KEY_STEP]]tail'') (js '']]'') 0 = 21
   \<and> indexOf (js ''[[KEY_STEP[[/KEY_STEP]]body[[/KEY_STEP]]tail'') endTag 23 = 27
   \<and> parseKeySteps (js ''[[KEY_STEP[[/KEY_STEP]]body[[/KEY_STEP]]tail'')
       = Some [keySeg [] None None, normalSeg (js ''body[[/KEY_STEP]]tail'')]
   \<and> parseKeySteps (js ''[[KEY_STEP[[/KEY_STEP]]body[[/KEY_STEP]]tail'')
       \<noteq> Some [keySeg (js ''body'') None None, normalSeg (js ''tail'')]"
proof -
  let ?x = "js ''[[KEY_STEP[[/KEY_STEP]]body[[/KEY_STEP]]tail''"
  have x: "?x = [91, 91, 75, 69, 89, 95, 83, 84, 69, 80,
      91, 91, 47, 75, 69, 89, 95, 83, 84, 69, 80, 93, 93, 98, 111, 100, 121,
      91, 91, 47, 75, 69, 89, 95, 83, 84, 69, 80, 93, 93, 116, 97, 105, 108]"
    by (simp add: js_def)
  have s: "indexOf ?x startTag 0 = int 0"
    and e: "indexOf ?x endTag (int 0) = int 10"
    and h: "indexOf ?x (js '']]'') (int 0) = int 21"
    and e': "indexOf ?x endTag 23 = 27"
    unfolding x by (simp_all add: indexOf_def startTag_eq endTag_eq closer_eq)
  have t: "take (10 - (21 + 2)) (drop (21 + 2) ?x) = []"
       "take (21 - (0 + 10)) (drop (0 + 10) ?x) = js ''[[/KEY_STEP''"
       "drop (10 + 13) ?x = js ''body[[/KEY_STEP]]tail''"
    by (simp_all add: js_def)
  have n: "\<not> sublist startTag (js ''body[[/KEY_STEP]]tail'')"
    by (simp add: js_def startTag_eq sublist_code)
  have r: "segmentsOf (js ''body[[/KEY_STEP]]tail'') = [normalSeg (js ''body[[/KEY_STEP]]tail'')]"
    unfolding segmentsOf_no_marker [OF n] by (simp add: js_def)
  have "segmentsOf ?x = [keySeg [] None None, normalSeg (js ''body[[/KEY_STEP]]tail'')]"
    unfolding segmentsOf_key [OF s e h] t header_in_terminator_eval r by simp
  then have p: "parseKeySteps ?x = Some [keySeg [] None None, normalSeg (js ''body[[/KEY_STEP]]tail'')]"
    by (simp only: parseKeySteps_def parseLoop_eq append_Nil)
  have "keySeg [] None None \<noteq> keySeg (js ''body'') None None"
    by (simp add: keySeg_def js_def)
  then have "parseKeySteps ?x \<noteq> Some [keySeg (js ''body'') None None, normalSeg (js ''tail'')]"
    unfolding p by simp
  with p s h e' show ?thesis by simp
qed

text \<open>
  Claim C6, as amended. Nested key steps are not supported. The start marker found by
  the scan is paired with the first terminator after that marker; when the header closes
  with \<open>]]\<close> before that terminator, everything between the header end and the
  terminator is the body of this one key step, whatever start markers it contains.
\<close>

theorem nested_marker_is_body:
  assumes "\<not> sublist startTag (pre @ butlast startTag)"
    and "\<not> sublist (js '']]'') (startTag @ hdr @ butlast (js '']]''))"
    and "\<not> sublist endTag (startTag @ hdr @ js '']]'' @ body @ butlast endTag)"
  shows "parseLoop (pre @ startTag @ hdr @ js '']]'' @ body @ endTag @ rest) segments =
     parseLoop rest
       (segments @ (if pre \<noteq> [] then [normalSeg pre] else []) @
          [keySeg body (matchId (trim hdr)) (matchTheorem (trim hdr))])"
proof -
  have "butlast (js '']]'') = [93]" by (simp add: js_def)
  with assms(2) have a2: "\<not> sublist (js '']]'') (startTag @ hdr @ [93])" by simp
  show ?thesis
    unfolding parseLoop_eq segmentsOf_wrapper [OF assms(1) a2 assms(3)] by simp
qed

theorem nested_marker_is_body_witness:
  "\<not> sublist startTag ([] @ butlast startTag)
   \<and> \<not> sublist (js '']]'') (startTag @ js '' id=1'' @ butlast (js '']]''))
   \<and> \<not> sublist endTag (startTag @ js '' id=1'' @ js '']]'' @ js ''a [[KEY_STEP id=2]] b'' @ butlast endTag)
   \<and> parseLoop ([] @ startTag @ js '' id=1'' @ js '']]'' @ js ''a [[KEY_STEP id=2]] b'' @ endTag @ []) []
       = parseLoop [] [keySeg (js ''a [[KEY_STEP id=2]] b'') (Some (js ''1'')) None]"
proof -
  have h: "\<not> sublist startTag ([] @ butlast startTag)"
    "\<not> sublist (js '']]'') (startTag @ js '' id=1'' @ butlast (js '']]''))"
    "\<not> sublist endTag (startTag @ js '' id=1'' @ js '']]'' @ js ''a [[KEY_STEP id=2]] b'' @ butlast endTag)"
    by (simp_all add: startTag_eq endTag_eq js_def sublist_code)
  have a: "trim (js '' id=1'') = js ''id=1''"
    by (simp add: trim_def js_def isWhiteSpace_def)
  have b: "matchId (js ''id=1'') = Some (js ''1'')"
    by (simp add: js_def isWhiteSpace_def Let_def)
  have c: "matchTheorem (js ''id=1'') = None"
    by (simp add: js_def Let_def)
  note nested_marker_is_body [OF h, of "[]" "[]", unfolded a b c]
  with h show ?thesis by simp
qed

text \<open>
  The claim as stated pairs the marker with the first terminator after its header. In the
  input below the header of the first marker ends at 23 and the first terminator after it
  is at 42, so the start marker at 24 would be content of the first key step; the parser
  closes the first key step at the terminator at 10 and opens a second key step at 24.
\<close>

theorem nested_marker_counterexample:
  "indexOf (js ''[[KEY_STEP[[/KEY_STEP]] [[KEY_STEP id=2]]x[[/KEY_STEP]]'') startTag 0 = 0
   \<and> indexOf (js ''[[KEY_STEP[[/KEY_STEP]] [[KEY_STEP id=2]]x[[/KEY_STEP]]'') (js '']]'') 0 = 21
   \<and> indexOf (js ''[[KEY_STEP[[/KEY_STEP]] [[KEY_STEP id=2]]x[[/KEY_STEP]]'') endTag 23 = 42
   \<and> indexOf (js ''[[KEY_STEP[[/KEY_STEP]] [[KEY_STEP id=2]]x[[/KEY_STEP]]'') startTag 23 = 24
   \<and> parseKeySteps (js ''[[KEY_STEP[[/KEY_STEP]] [[KEY_STEP id=2]]x[[/KEY_STEP]]'')
       = Some [keySeg [] None None, normalSeg (js '' ''), keySeg (js ''x'') (Some (js ''2'')) None]
   \<and> parseKeySteps (js ''[[KEY_STEP[[/KEY_STEP]] [[KEY_STEP id=2]]x[[/KEY_STEP]]'')
       \<noteq> Some [keySeg (js '' [[KEY_STEP id=2]]x'') None None]"
proof -
  let ?x = "js ''[[KEY_STEP[[/KEY_STEP]] [[KEY_STEP id=2]]x[[/KEY_STEP]]''"
  have x: "?x = [91, 91, 75, 69, 89, 95, 83, 84, 69, 80,
      91, 91, 47, 75, 69, 89, 95, 83, 84, 69, 80, 93, 93, 32,
      91, 91, 75, 69, 89, 95, 83, 84, 69, 80, 32, 105, 100, 61, 50, 93, 93, 120,
      91, 91, 47, 75, 69, 89, 95, 83, 84, 69, 80, 93, 93]"
    by (simp add: js_def)
  have s: "indexOf ?x startTag 0 = int 0"
    and e: "indexOf ?x endTag (int 0) = int 10"
    and h: "indexOf ?x (js '']]'') (int 0) = int 21"
    and e': "indexOf ?x endTag 23 = 42"
    and s': "indexOf ?x startTag 23 = 24"
    unfolding x by (simp_all add: indexOf_def startTag_eq endTag_eq closer_eq)
  have t: "take (10 - (21 + 2)) (drop (21 + 2) ?x) = []"
       "take (21 - (0 + 10)) (drop (0 + 10) ?x) = js ''[[/KEY_STEP''"
       "drop (10 + 13) ?x = js '' '' @ startTag @ js '' id=2'' @ js '']]'' @ js ''x'' @ endTag @ []"
    by (simp_all add: js_def startTag_def endTag_def)
  have a: "trim (js '' id=2'') = js ''id=2''"
    by (simp add: trim_def js_def isWhiteSpace_def)
  have b: "matchId (js ''id=2'') = Some (js ''2'')"
    by (simp add: js_def isWhiteSpace_def Let_def)
  have c: "matchTheorem (js ''id=2'') = None"
    by (simp add: js_def Let_def)
  have "segmentsOf (js '' '' @ startTag @ js '' id=2'' @ js '']]'' @ js ''x'' @ endTag @ [])
     = (if js '' '' \<noteq> [] then [normalSeg (js '' '')] else []) @
       keySeg (js ''x'') (matchId (trim (js '' id=2''))) (matchTheorem (trim (js '' id=2'')))
         # segmentsOf []"
    by (rule segmentsOf_wrapper) (simp_all add: startTag_eq endTag_eq closer_eq js_def sublist_code)
  then have r: "segmentsOf (js '' '' @ startTag @ js '' id=2'' @ js '']]'' @ js ''x'' @ endTag @ [])
     = [normalSeg (js '' ''), keySeg (js ''x'') (Some (js ''2'')) None]"
    unfolding a b c by (simp add: segmentsOf_Nil js_def)
  have "segmentsOf ?x = [keySeg [] None None, normalSeg (js '' ''), keySeg (js ''x'') (Some (js ''2'')) None]"
    unfolding segmentsOf_key [OF s e h] t header_in_terminator_eval r by simp
  then have p: "parseKeySteps ?x = Some [keySeg [] None None, normalSeg (js '' ''),
      keySeg (js ''x'') (Some (js ''2'')) None]"
    by (simp only: parseKeySteps_def parseLoop_eq append_Nil)
  have "parseKeySteps ?x \<noteq> Some [keySeg (js '' [[KEY_STEP id=2]]x'') None None]"
    unfolding p by simp
  with p s h e' s' show ?thesis by simp
qed

section \<open>Segmentation completeness\<close>

text \<open>
  The text a parse has to cover, following the words of the specification (section 4.1
  and the grammar of section 6): scanning from the left, a key-step region is a start
  marker, a header up to the first \<open>]]\<close>, a body, and the first terminator located
  after the header. The wrapper (header and terminator) is removed and the body kept;
  without a header end or a terminator the rest of the text is left as it is.
  \<open>locate\<close> is the search for a marker from a position on.
\<close>

definition locate :: "jsstring \<Rightarrow> jsstring \<Rightarrow> nat \<Rightarrow> nat option" where
  "locate text marker from =
     (let k = indexOf text marker (int from) in if k = - 1 then None else Some (nat k))"

lemma indexOf_clamp: "indexOf s n (int p) = indexOf s n (int (min p (length s)))"
  by (simp add: indexOf_def min_def)

lemma locate_Some:
  assumes "locate text marker from = Some k" "marker \<noteq> []"
  shows "k + length marker \<le> length text" and "indexOf text marker (int from) = int k"
proof -
  let ?p = "min from (length text)"
  from assms(1) have ne: "indexOf text marker (int from) \<noteq> - 1"
    and k: "k = nat (indexOf text marker (int from))"
    by (auto simp: locate_def Let_def split: if_splits)
  from ne have "indexOf text marker (int ?p) \<noteq> - 1" using indexOf_clamp [of "text" marker "from"] by simp
  from indexOf_found [OF _ this]
  obtain j where j: "indexOf text marker (int ?p) = int j" "j + length marker \<le> length text"
    by auto
  then have "indexOf text marker (int from) = int j" using indexOf_clamp [of "text" marker "from"] by simp
  with k j show "k + length marker \<le> length text" and "indexOf text marker (int from) = int k"
    by simp_all
qed

lemma locate_eq_Some: "indexOf text marker (int from) = int k \<Longrightarrow> locate text marker from = Some k"
  by (simp add: locate_def)

lemma locate_eq_None: "indexOf text marker (int from) = - 1 \<Longrightarrow> locate text marker from = None"
  by (simp add: locate_def)

function specStripWrappers :: "jsstring \<Rightarrow> jsstring" where
  "specStripWrappers text =
     (case locate text startTag 0 of
        None \<Rightarrow> text
      | Some s \<Rightarrow>
          (case locate text (js '']]'') (s + 10) of
             None \<Rightarrow> text
           | Some h \<Rightarrow>
               (case locate text endTag (h + 2) of
                  None \<Rightarrow> text
                | Some e \<Rightarrow>
                    take s text @ take (e - (h + 2)) (drop (h + 2) text)
                      @ specStripWrappers (drop (e + 13) text))))"
  by pat_completeness auto
termination
proof (relation "measure length", goal_cases)
  case 1
  show ?case by simp
next
  case (2 t s h e)
  have "e + length endTag \<le> length t"
    using 2(3) by (rule locate_Some) (simp add: endTag_eq)
  then show ?case by (simp add: length_endTag)
qed

text \<open>
  The texts in which every start marker the scan of the parser reaches has its header
  closed before the first terminator that follows the marker.
\<close>

function headersClosed :: "jsstring \<Rightarrow> bool" where
  "headersClosed text =
     (case locate text startTag 0 of
        None \<Rightarrow> True
      | Some s \<Rightarrow>
          (case locate text endTag s of
             None \<Rightarrow> True
           | Some e \<Rightarrow>
               (case locate text (js '']]'') s of
                  None \<Rightarrow> False
                | Some h \<Rightarrow> h + 2 \<le> e \<and> headersClosed (drop (e + 13) text))))"
  by pat_completeness auto
termination
proof (relation "measure length", goal_cases)
  case 1
  show ?case by simp
next
  case (2 t s e h)
  have "e + length endTag \<le> length t"
    using 2(2) by (rule locate_Some) (simp add: endTag_eq)
  then show ?case by (simp add: length_endTag)
qed

declare specStripWrappers.simps [simp del] headersClosed.simps [simp del]

lemma concat_texts_prefix:
  "concat (map seg_text ((if 0 < s then [normalSeg (take s r)] else []) @ rest))
     = take s r @ concat (map seg_text rest)"
  by (simp add: normalSeg_def)

lemma texts_stripped:
  "headersClosed r \<Longrightarrow> concat (map seg_text (segmentsOf r)) = specStripWrappers r"
proof (induction r rule: length_induct)
  case (1 r)
  show ?case
  proof (cases r rule: scan_cases)
    case plain
    then have "locate r startTag 0 = None" by (simp add: locate_def)
    then have "specStripWrappers r = r" by (subst specStripWrappers.simps) simp
    then show ?thesis by (simp add: segmentsOf_plain [OF plain] normalSeg_def)
  next
    case (malformed s)
    have sl: "s \<le> length r" using malformed(2) by simp
    have ls: "locate r startTag 0 = Some s" using malformed(1) by (simp add: locate_def)
    have none: "\<not> sublist endTag (drop s r)"
      using malformed(3) indexOf_neg_iff [OF sl, of endTag] by simp
    have "specStripWrappers r = r"
    proof (cases "locate r (js '']]'') (s + 10)")
      case None
      with ls show ?thesis by (subst specStripWrappers.simps) simp
    next
      case (Some h)
      from locate_Some [OF Some] have hl: "h + 2 \<le> length r"
        and hi: "indexOf r (js '']]'') (int (s + 10)) = int h"
        by (simp_all add: closer_eq)
      have "indexOf r (js '']]'') (int (s + 10)) \<noteq> - 1" using hi by simp
      from indexOf_found [OF malformed(2) this] hi have sh: "s + 10 \<le> h" by auto
      have "locate r endTag (h + 2) = None"
      proof (rule ccontr)
        assume "locate r endTag (h + 2) \<noteq> None"
        then have "indexOf r endTag (int (h + 2)) \<noteq> - 1"
          by (auto simp: locate_def Let_def)
        then have "sublist endTag (drop (h + 2) r)" using indexOf_neg_iff [OF hl, of endTag] by simp
        moreover have "drop (h + 2) r = drop (h + 2 - s) (drop s r)" using sh by simp
        then have "sublist (drop (h + 2) r) (drop s r)" by (metis sublist_drop)
        ultimately have "sublist endTag (drop s r)" by (meson sublist_order.order_trans)
        with none show False by simp
      qed
      with ls Some show ?thesis by (subst specStripWrappers.simps) simp
    qed
    then show ?thesis
      unfolding segmentsOf_malformed [OF malformed(1,3)] concat_texts_prefix
      by (simp add: normalSeg_def)
  next
    case (key s e h)
    have sl: "s \<le> length r" using key(4-7) by simp
    have ls: "locate r startTag 0 = Some s" using key(1) by (simp add: locate_def)
    have le: "locate r endTag s = Some e" using key(2) by (rule locate_eq_Some)
    have lh: "locate r (js '']]'') s = Some h" using key(3) by (rule locate_eq_Some)
    from 1(2) ls le lh have he: "h + 2 \<le> e" and hc: "headersClosed (drop (e + 13) r)"
      by (subst (asm) headersClosed.simps, simp)+
    have "indexOf r (js '']]'') (int (s + 10)) = int h"
      using key(4) by (intro indexOf_later_start [OF key(3) sl]) simp_all
    then have lh': "locate r (js '']]'') (s + 10) = Some h" by (rule locate_eq_Some)
    have "indexOf r endTag (int (h + 2)) = int e"
      using key(4) he by (intro indexOf_later_start [OF key(2) sl]) simp_all
    then have le': "locate r endTag (h + 2) = Some e" by (rule locate_eq_Some)
    have sw: "specStripWrappers r = take s r @ take (e - (h + 2)) (drop (h + 2) r)
        @ specStripWrappers (drop (e + 13) r)"
      using ls lh' le' by (subst specStripWrappers.simps) simp
    have "length (drop (e + 13) r) < length r" using key(7) by simp
    with 1(1) hc have ih: "concat (map seg_text (segmentsOf (drop (e + 13) r)))
        = specStripWrappers (drop (e + 13) r)" by blast
    show ?thesis
      unfolding segmentsOf_key [OF key(1-3)] concat_texts_prefix sw
      by (simp add: keySeg_def ih)
  qed
qed

text \<open>
  Claim C1, as amended. For every input in which each start marker reached by the scan
  has its header closed by \<open>]]\<close> before the first terminator after the marker, the
  texts of the segments, concatenated in order, are the input with each well-formed
  wrapper removed and a malformed trailing tag left as it is.
\<close>

theorem segmentation_completeness:
  "headersClosed text \<Longrightarrow> parseKeySteps text = Some segments \<Longrightarrow>
     concat (map seg_text segments) = specStripWrappers text"
  using texts_stripped [of "text"] by (auto simp: parseKeySteps_def parseLoop_eq)

lemma w_eval: "js ''a[[KEY_STEP]]b[[/KEY_STEP]]c[[KEY_STEP'' =
    [97, 91, 91, 75, 69, 89, 95, 83, 84, 69, 80, 93, 93, 98,
     91, 91, 47, 75, 69, 89, 95, 83, 84, 69, 80, 93, 93, 99,
     91, 91, 75, 69, 89, 95, 83, 84, 69, 80]"
  by (simp add: js_def)

lemma w_closed: "headersClosed (js ''a[[KEY_STEP]]b[[/KEY_STEP]]c[[KEY_STEP'')"
  unfolding w_eval
  by (simp add: headersClosed.simps locate_def indexOf_def startTag_eq endTag_eq closer_eq)

lemma w_strip: "specStripWrappers (js ''a[[KEY_STEP]]b[[/KEY_STEP]]c[[KEY_STEP'') = js ''abc[[KEY_STEP''"
  unfolding w_eval
  by (simp add: specStripWrappers.simps locate_def indexOf_def startTag_eq endTag_eq closer_eq js_def)

lemma c_strip: "specStripWrappers (js ''[[KEY_STEP[[/KEY_STEP]]'') = js ''[[KEY_STEP[[/KEY_STEP]]''"
  by (simp add: specStripWrappers.simps locate_def indexOf_def startTag_eq endTag_eq closer_eq js_def)

text \<open>
  An input with text before a key step, a key step, and an unterminated marker at the
  end.
\<close>

lemma w_parse:
  "parseKeySteps (js ''a[[KEY_STEP]]b[[/KEY_STEP]]c[[KEY_STEP'')
     = Some [normalSeg (js ''a''), keySeg (js ''b'') None None, normalSeg (js ''c''),
         normalSeg (js ''[[KEY_STEP'')]"
proof -
  have d: "js ''a[[KEY_STEP]]b[[/KEY_STEP]]c[[KEY_STEP''
     = js ''a'' @ startTag @ [] @ js '']]'' @ js ''b'' @ endTag @ (js ''c'' @ startTag @ [])"
    by (simp add: js_def startTag_def endTag_def)
  have 1: "segmentsOf (js ''a'' @ startTag @ [] @ js '']]'' @ js ''b'' @ endTag @ (js ''c'' @ startTag @ []))
     = (if js ''a'' \<noteq> [] then [normalSeg (js ''a'')] else []) @
       keySeg (js ''b'') (matchId (trim [])) (matchTheorem (trim []))
         # segmentsOf (js ''c'' @ startTag @ [])"
    by (rule segmentsOf_wrapper) (simp_all add: startTag_eq endTag_eq closer_eq js_def sublist_code)
  have 2: "segmentsOf (js ''c'' @ startTag @ [])
     = (if js ''c'' \<noteq> [] then [normalSeg (js ''c'')] else []) @ [normalSeg (startTag @ [])]"
    by (rule segmentsOf_unterminated) (simp_all add: startTag_eq endTag_eq js_def sublist_code)
  show ?thesis
    unfolding parseKeySteps_def parseLoop_eq d 1 2
    by (simp add: trim_def js_def startTag_def)
qed

theorem segmentation_completeness_witness:
  "headersClosed (js ''a[[KEY_STEP]]b[[/KEY_STEP]]c[[KEY_STEP'')
   \<and> parseKeySteps (js ''a[[KEY_STEP]]b[[/KEY_STEP]]c[[KEY_STEP'')
       = Some [normalSeg (js ''a''), keySeg (js ''b'') None None, normalSeg (js ''c''),
           normalSeg (js ''[[KEY_STEP'')]
   \<and> concat (map seg_text [normalSeg (js ''a''), keySeg (js ''b'') None None,
           normalSeg (js ''c''), normalSeg (js ''[[KEY_STEP'')])
       = specStripWrappers (js ''a[[KEY_STEP]]b[[/KEY_STEP]]c[[KEY_STEP'')
   \<and> specStripWrappers (js ''a[[KEY_STEP]]b[[/KEY_STEP]]c[[KEY_STEP'') = js ''abc[[KEY_STEP''"
  using w_closed w_parse w_strip segmentation_completeness [OF w_closed w_parse]
  by (intro conjI)

text \<open>
  The claim as stated holds for every input. The input below has no terminator after
  its header, which ends with the terminator's own \<open>]]\<close>: by the grammar it is a
  malformed tag to be left as it is, but the parser returns one key step with an empty
  text.
\<close>

theorem header_closed_by_terminator_counterexample:
  "parseKeySteps (js ''[[KEY_STEP[[/KEY_STEP]]'') = Some [keySeg [] None None]
   \<and> concat (map seg_text [keySeg [] None None]) = []
   \<and> specStripWrappers (js ''[[KEY_STEP[[/KEY_STEP]]'') = js ''[[KEY_STEP[[/KEY_STEP]]''
   \<and> concat (map seg_text [keySeg [] None None])
       \<noteq> specStripWrappers (js ''[[KEY_STEP[[/KEY_STEP]]'')"
proof -
  let ?x = "js ''[[KEY_STEP[[/KEY_STEP]]''"
  have x: "?x = [91, 91, 75, 69, 89, 95, 83, 84, 69, 80,
      91, 91, 47, 75, 69, 89, 95, 83, 84, 69, 80, 93, 93]"
    by (simp add: js_def)
  have s: "indexOf ?x startTag 0 = int 0"
    and e: "indexOf ?x endTag (int 0) = int 10"
    and h: "indexOf ?x (js '']]'') (int 0) = int 21"
    unfolding x by (simp_all add: indexOf_def startTag_eq endTag_eq closer_eq)
  have t: "take (10 - (21 + 2)) (drop (21 + 2) ?x) = []"
       "take (21 - (0 + 10)) (drop (0 + 10) ?x) = js ''[[/KEY_STEP''"
       "drop (10 + 13) ?x = []"
    by (simp_all add: js_def)
  have "segmentsOf ?x = [keySeg [] None None]"
    unfolding segmentsOf_key [OF s e h] t header_in_terminator_eval segmentsOf_Nil by simp
  then have p: "parseKeySteps ?x = Some [keySeg [] None None]"
    by (simp only: parseKeySteps_def parseLoop_eq append_Nil)
  have c: "concat (map seg_text [keySeg [] None None]) = []" by (simp add: keySeg_def)
  have n: "?x \<noteq> []" by (simp add: js_def)
  have "concat (map seg_text [keySeg [] None None]) \<noteq> specStripWrappers ?x"
    unfolding c c_strip using n by simp
  with p c c_strip show ?thesis by (intro conjI)
qed

end
